theory Spec2Isabelle
  imports Main "HOL-Library.AList"
begin

section \<open>Python strings\<close>

text \<open>
  A Python \<open>str\<close> is modelled as a \<open>string\<close> (a list of 8-bit characters, read as the
  code points below 256). The string methods the repository calls are written out below.
  \<open>str.strip()\<close> without an argument removes the characters for which \<open>str.isspace\<close>
  holds: TAB, LF, VT, FF, CR, the separators 0x1C to 0x1F, SPACE, and (beyond ASCII) NEL 0x85
  and NBSP 0xA0.
\<close>

definition NL :: char where
  "NL = CHR 0x0A"

definition CR :: char where
  "CR = CHR 0x0D"

definition isspace :: "char \<Rightarrow> bool" where
  "isspace c = (c \<in> set [CHR 0x09, CHR 0x0A, CHR 0x0B, CHR 0x0C, CHR 0x0D,
                            CHR 0x1C, CHR 0x1D, CHR 0x1E, CHR 0x1F, CHR 0x20,
                            CHR 0x85, CHR 0xA0])"

definition lstrip :: "string \<Rightarrow> string" where
  "lstrip s = dropWhile isspace s"

definition rstrip :: "string \<Rightarrow> string" where
  "rstrip s = rev (dropWhile isspace (rev s))"

definition strip :: "string \<Rightarrow> string" where
  "strip s = lstrip (rstrip s)"

text \<open>\<open>s.rstrip("\n")\<close>: only trailing line feeds are removed.\<close>

definition rstrip_nl :: "string \<Rightarrow> string" where
  "rstrip_nl s = rev (dropWhile (\<lambda>c. c = NL) (rev s))"

definition startswith :: "string \<Rightarrow> string \<Rightarrow> bool" where
  "startswith s p = (take (length p) s = p)"

text \<open>
  \<open>str.upper()\<close> and \<open>str.lower()\<close> on the ASCII letters. Characters outside ASCII are left
  as they are: Python maps them to characters outside ASCII again (or to \<open>SS\<close> for 0xDF),
  so no comparison the code makes with \<open>ON\<close>, \<open>OFF\<close>, \<open>YES\<close>, \<open>NO\<close> or a file extension
  changes its outcome.
\<close>

definition upper_char :: "char \<Rightarrow> char" where
  "upper_char c =
     (case map_of (zip ''abcdefghijklmnopqrstuvwxyz'' ''ABCDEFGHIJKLMNOPQRSTUVWXYZ'') c of
        None \<Rightarrow> c | Some u \<Rightarrow> u)"

definition lower_char :: "char \<Rightarrow> char" where
  "lower_char c =
     (case map_of (zip ''ABCDEFGHIJKLMNOPQRSTUVWXYZ'' ''abcdefghijklmnopqrstuvwxyz'') c of
        None \<Rightarrow> c | Some u \<Rightarrow> u)"

definition upper :: "string \<Rightarrow> string" where
  "upper s = map upper_char s"

definition lower :: "string \<Rightarrow> string" where
  "lower s = map lower_char s"

text \<open>
  \<open>s.rsplit("_", 1)\<close>: split at the last underscore. Without an underscore Python returns
  a one-element list, and the code either checks for that before or fails to unpack it;
  the model returns \<open>None\<close> there.
\<close>

definition rsplit_underscore :: "string \<Rightarrow> (string \<times> string) option" where
  "rsplit_underscore s =
     (if CHR ''_'' \<in> set s
      then (let tl_rev = takeWhile (\<lambda>c. c \<noteq> CHR ''_'') (rev s)
            in Some (rev (drop (Suc (length tl_rev)) (rev s)), rev tl_rev))
      else None)"

text \<open>
  \<open>os.path.splitext\<close> (POSIX): the extension starts at the last dot, provided the dot comes
  after the last \<open>/\<close> and some character between that \<open>/\<close> and the dot is not a dot.
\<close>

definition rfind :: "char \<Rightarrow> string \<Rightarrow> nat option" where
  "rfind c s =
     (if c \<in> set s then Some (length s - Suc (length (takeWhile (\<lambda>d. d \<noteq> c) (rev s))))
      else None)"

definition splitext :: "string \<Rightarrow> string \<times> string" where
  "splitext p =
     (case rfind (CHR ''.'') p of
        None \<Rightarrow> (p, [])
      | Some dotIndex \<Rightarrow>
          (let filenameIndex = (case rfind (CHR ''/'') p of None \<Rightarrow> 0 | Some i \<Rightarrow> Suc i)
           in if filenameIndex \<le> dotIndex
                 \<and> (\<exists>c \<in> set (take (dotIndex - filenameIndex) (drop filenameIndex p)).
                       c \<noteq> CHR ''.'')
              then (take dotIndex p, drop dotIndex p)
              else (p, [])))"

section \<open>The file store\<close>

text \<open>
  The programs keep all their state in files. The model holds what the claims read:
  the text of every feed file (by path), the listing of the two image directories
  (\<open>None\<close> when the directory does not exist; \<open>os.listdir\<close> returns the list), and the
  entries of the ready directory that \<open>os.remove\<close> fails on (it raises \<open>OSError\<close>; the
  code logs and goes on). Image contents are not modelled; printing is not modelled.
\<close>

datatype error = ValueError | FileNotFoundError

record fs =
  feed_files :: "string \<rightharpoonup> string"
  images_src :: "string list option"
  images_ready :: "string list option"
  undeletable :: "string list"

text \<open>
  \<open>os.path.join(directory, name)\<close> and \<open>Path(directory) / name\<close>, for a name that is not
  an absolute path (an entry of a listing never is).
\<close>

definition path_join :: "string \<Rightarrow> string \<Rightarrow> string" where
  "path_join directory name = directory @ ''/'' @ name"

definition empty_store :: fs where
  "empty_store = \<lparr>feed_files = Map.empty, images_src = None, images_ready = None,
                   undeletable = []\<rparr>"

section \<open>feeds.py\<close>

definition FEED_ROOT :: string where
  "FEED_ROOT = ''feeds''"

definition feed_path :: "string \<Rightarrow> error + string" where
  "feed_path feed_name =
     (let sanitized = strip feed_name
      in if sanitized = [] then Inl ValueError
         else Inr (path_join FEED_ROOT (sanitized @ ''.feed'')))"

definition file_text :: "fs \<Rightarrow> string \<Rightarrow> string" where
  "file_text s path = (case feed_files s path of None \<Rightarrow> [] | Some t \<Rightarrow> t)"

text \<open>
  Opening in mode \<open>a\<close> creates a missing file; the write goes to the end. On POSIX the
  text written is stored as it is (\<open>os.linesep\<close> is \<open>\n\<close>).
\<close>

definition write_end :: "string \<Rightarrow> string \<Rightarrow> fs \<Rightarrow> fs" where
  "write_end path t s = s\<lparr>feed_files := (feed_files s)(path \<mapsto> file_text s path @ t)\<rparr>"

definition append_message :: "string \<Rightarrow> string \<Rightarrow> fs \<Rightarrow> error + fs" where
  "append_message feed_name message s =
     (case feed_path feed_name of
        Inl e \<Rightarrow> Inl e
      | Inr path \<Rightarrow> Inr (write_end path (rstrip_nl message @ [NL]) s))"

definition append_messages :: "string \<Rightarrow> string list \<Rightarrow> fs \<Rightarrow> error + fs" where
  "append_messages feed_name messages s =
     (case feed_path feed_name of
        Inl e \<Rightarrow> Inl e
      | Inr path \<Rightarrow>
          Inr (fold (\<lambda>message. write_end path (rstrip_nl message @ [NL]))
                 messages (write_end path [] s)))"

text \<open>
  Reading in text mode translates \<open>\r\n\<close> and a lone \<open>\r\<close> to \<open>\n\<close> (universal newlines);
  \<open>readlines\<close> then cuts after every \<open>\n\<close> and keeps it on the line.
\<close>

fun universal_newlines :: "string \<Rightarrow> string" where
  "universal_newlines [] = []"
| "universal_newlines [c] = (if c = CR then [NL] else [c])"
| "universal_newlines (c # d # cs) =
     (if c = CR \<and> d = NL then NL # universal_newlines cs
      else if c = CR then NL # universal_newlines (d # cs)
      else c # universal_newlines (d # cs))"

fun readlines :: "string \<Rightarrow> string list" where
  "readlines [] = []"
| "readlines (c # cs) =
     (if c = NL then [c] # readlines cs
      else (case readlines cs of [] \<Rightarrow> [[c]] | l # ls \<Rightarrow> (c # l) # ls))"

text \<open>\<open>[line.strip() for line in handle.readlines() if line.strip()]\<close>\<close>

definition stripped_lines :: "string \<Rightarrow> string list" where
  "stripped_lines t =
     map strip (filter (\<lambda>line. strip line \<noteq> []) (readlines (universal_newlines t)))"

definition consume_messages :: "string \<Rightarrow> fs \<Rightarrow> error + (string list \<times> fs)" where
  "consume_messages feed_name s =
     (case feed_path feed_name of
        Inl e \<Rightarrow> Inl e
      | Inr path \<Rightarrow>
          (case feed_files s path of
             None \<Rightarrow> Inr ([], s)
           | Some t \<Rightarrow> Inr (stripped_lines t, s\<lparr>feed_files := (feed_files s)(path \<mapsto> [])\<rparr>)))"

definition peek_messages :: "string \<Rightarrow> fs \<Rightarrow> error + (string list \<times> fs)" where
  "peek_messages feed_name s =
     (case feed_path feed_name of
        Inl e \<Rightarrow> Inl e
      | Inr path \<Rightarrow>
          (case feed_files s path of
             None \<Rightarrow> Inr ([], s)
           | Some t \<Rightarrow> Inr (stripped_lines t, s)))"

definition clear_feed :: "string \<Rightarrow> fs \<Rightarrow> error + fs" where
  "clear_feed feed_name s =
     (case feed_path feed_name of
        Inl e \<Rightarrow> Inl e
      | Inr path \<Rightarrow>
          (case feed_files s path of
             None \<Rightarrow> Inr s
           | Some t \<Rightarrow> Inr (s\<lparr>feed_files := (feed_files s)(path \<mapsto> [])\<rparr>)))"

section \<open>control_server.py\<close>

definition CONTROL_FEED :: string where
  "CONTROL_FEED = ''control''"

definition POWER_FEED :: string where
  "POWER_FEED = ''POWER''"

definition INACTIVITY_THRESHOLD :: nat where
  "INACTIVITY_THRESHOLD = 10"

definition parse_status_filename :: "string \<Rightarrow> (string \<times> string) option" where
  "parse_status_filename filename =
     (let (stem, ext) = splitext filename
      in if lower ext \<notin> set [''.jpg'', ''.jpeg'', ''.png''] then None
         else (case rsplit_underscore stem of
                 None \<Rightarrow> None
               | Some (camera_id, status0) \<Rightarrow>
                   (let status = upper status0
                    in if \<not> startswith camera_id ''CAM_'' then None
                       else if status \<notin> set [''YES'', ''NO''] then None
                       else Some (camera_id, status))))"

text \<open>
  A Python \<open>dict\<close> is an association list in insertion order; \<open>d[k] = v\<close> is
  \<open>AList.update k v d\<close> (an existing key keeps its place), \<open>d.get(k)\<close> is \<open>map_of d k\<close>,
  \<open>d.items()\<close> is the list itself.
\<close>

definition get_camera_status :: "fs \<Rightarrow> (string \<times> string) list" where
  "get_camera_status s =
     (case images_ready s of
        None \<Rightarrow> []
      | Some listing \<Rightarrow>
          fold (\<lambda>filename statuses.
                  case parse_status_filename filename of
                    None \<Rightarrow> statuses
                  | Some (camera_id, status) \<Rightarrow> AList.update camera_id status statuses)
               listing [])"

definition write_to_power_feed :: "string \<Rightarrow> fs \<Rightarrow> error + fs" where
  "write_to_power_feed content s = append_message POWER_FEED content s"

text \<open>
  The body of the loop of \<open>read_control_feed\<close>, for one command. \<open>command_directive\<close> is
  its checks: the content it writes to the power feed, or \<open>None\<close> where it prints a
  diagnostic and continues with the next command (the \<open>ValueError\<close> of the unpacking is
  caught there).
\<close>

definition command_directive :: "string \<Rightarrow> string option" where
  "command_directive command0 =
     (let command = strip command0
      in if \<not> startswith command ''SET_CAM_'' then None
         else (case rsplit_underscore (drop (length ''SET_'') command) of
                 None \<Rightarrow> None
               | Some (target, desired_state0) \<Rightarrow>
                   (let desired_state = upper desired_state0
                    in if desired_state \<notin> set [''ON'', ''OFF''] then None
                       else Some (target @ ''_'' @ desired_state))))"

definition handle_command :: "string \<Rightarrow> fs \<Rightarrow> error + fs" where
  "handle_command command s =
     (case command_directive command of
        None \<Rightarrow> Inr s
      | Some content \<Rightarrow> write_to_power_feed content s)"

fun handle_commands :: "string list \<Rightarrow> fs \<Rightarrow> error + fs" where
  "handle_commands [] s = Inr s"
| "handle_commands (command # commands) s =
     (case handle_command command s of
        Inl e \<Rightarrow> Inl e
      | Inr s' \<Rightarrow> handle_commands commands s')"

definition read_control_feed :: "fs \<Rightarrow> error + fs" where
  "read_control_feed s =
     (case consume_messages CONTROL_FEED s of
        Inl e \<Rightarrow> Inl e
      | Inr (commands, s') \<Rightarrow> handle_commands commands s')"

text \<open>
  \<open>main\<close> never returns. Its state is the dictionary \<open>camera_inactivity_count\<close> (a
  Python \<open>dict\<close>, modelled as above) and the files. \<open>inactivity_update\<close> is the body of
  its inner loop (one camera and its status), \<open>inactivity_pass\<close> the inner loop,
  \<open>main_iteration\<close> one turn of \<open>while True\<close>.
\<close>

type_synonym monitor = "(string \<times> nat) list \<times> fs"

text \<open>\<open>camera_inactivity_count.get(cam_id, 0)\<close>\<close>

definition count_of :: "(string \<times> nat) list \<Rightarrow> string \<Rightarrow> nat" where
  "count_of counts cam_id = (case map_of counts cam_id of None \<Rightarrow> 0 | Some n \<Rightarrow> n)"

definition inactivity_update :: "string \<Rightarrow> string \<Rightarrow> monitor \<Rightarrow> error + monitor" where
  "inactivity_update cam_id status st =
     (let (counts, s) = st;
          counts1 = (if status = ''NO''
                     then AList.update cam_id (count_of counts cam_id + 1) counts
                     else AList.update cam_id 0 counts)
      in if count_of counts1 cam_id \<ge> INACTIVITY_THRESHOLD
         then (case write_to_power_feed (cam_id @ ''_OFF'') s of
                 Inl e \<Rightarrow> Inl e
               | Inr s' \<Rightarrow> Inr (AList.update cam_id 0 counts1, s'))
         else Inr (counts1, s))"

fun inactivity_pass :: "(string \<times> string) list \<Rightarrow> monitor \<Rightarrow> error + monitor" where
  "inactivity_pass [] st = Inr st"
| "inactivity_pass ((cam_id, status) # items) st =
     (case inactivity_update cam_id status st of
        Inl e \<Rightarrow> Inl e
      | Inr st' \<Rightarrow> inactivity_pass items st')"

definition main_iteration :: "monitor \<Rightarrow> error + monitor" where
  "main_iteration st =
     (case read_control_feed (snd st) of
        Inl e \<Rightarrow> Inl e
      | Inr s' \<Rightarrow> inactivity_pass (get_camera_status s') (fst st, s'))"


section \<open>image_server.py\<close>

definition IMAGE_SRC_DIR :: string where
  "IMAGE_SRC_DIR = ''images_src''"

definition FORCE_REQUEST_FEED :: string where
  "FORCE_REQUEST_FEED = ''force_request''"

definition FORCE_SERVED_FEED :: string where
  "FORCE_SERVED_FEED = ''force_served''"

definition BATCH_SIZE :: nat where
  "BATCH_SIZE = 25"

text \<open>
  The detector is outside the repository. \<open>NoModel coin\<close>: the model failed to load, and
  \<open>coin path\<close> is the outcome of \<open>random.random() > 0.5\<close> drawn for \<open>path\<close>.
  \<open>Model predict\<close>: \<open>predict paths\<close> is \<open>None\<close> when \<open>MODEL.predict\<close> raises, and otherwise
  the number of boxes of each result it returns, in order.
\<close>

datatype model = NoModel "string \<Rightarrow> bool" | Model "string list \<Rightarrow> nat list option"

text \<open>
  The loop over \<open>enumerate(predictions)\<close>. A result beyond the last path makes
  \<open>image_paths[i]\<close> raise \<open>IndexError\<close>, which the enclosing \<open>except\<close> catches: the loop
  ends and the map built so far is returned.
\<close>

fun mark_detections ::
  "string list \<Rightarrow> nat \<Rightarrow> nat list \<Rightarrow> (string \<times> string) list \<Rightarrow> (string \<times> string) list" where
  "mark_detections image_paths i [] results_map = results_map"
| "mark_detections image_paths i (boxes # predictions) results_map =
     (if boxes > 0
      then (if i < length image_paths
            then mark_detections image_paths (Suc i) predictions
                   (AList.update (image_paths ! i) ''YES'' results_map)
            else results_map)
      else mark_detections image_paths (Suc i) predictions results_map)"

definition detect_person_in_batch :: "model \<Rightarrow> string list \<Rightarrow> (string \<times> string) list" where
  "detect_person_in_batch m image_paths =
     (case m of
        NoModel coin \<Rightarrow>
          fold (\<lambda>path d. AList.update path (if coin path then ''YES'' else ''NO'') d)
               image_paths []
      | Model predict \<Rightarrow>
          (let results_map = fold (\<lambda>path d. AList.update path ''NO'' d) image_paths []
           in case predict image_paths of
                None \<Rightarrow> results_map
              | Some predictions \<Rightarrow> mark_detections image_paths 0 predictions results_map))"

definition basename :: "string \<Rightarrow> string" where
  "basename p = (case rfind (CHR ''/'') p of None \<Rightarrow> p | Some i \<Rightarrow> drop (Suc i) p)"

definition camera_id_from_path :: "string \<Rightarrow> string" where
  "camera_id_from_path image_path =
     (let filename = basename image_path;
          stem = fst (splitext filename)
      in if startswith stem ''CAM_'' then stem else stem)"

definition parse_ready_filename :: "string \<Rightarrow> (string \<times> string) option" where
  "parse_ready_filename filename =
     (let (stem, ext) = splitext filename
      in if lower ext \<notin> set [''.jpg'', ''.jpeg'', ''.png''] then None
         else (case rsplit_underscore stem of
                 None \<Rightarrow> None
               | Some (base, status0) \<Rightarrow>
                   (let status = upper status0
                    in if status \<notin> set [''YES'', ''NO''] then None
                       else if \<not> startswith base ''CAM_'' then None
                       else Some (base, status))))"

text \<open>\<open>os.remove\<close> of an entry of the ready directory; an \<open>OSError\<close> is caught by the caller.\<close>

definition os_remove :: "string \<Rightarrow> fs \<Rightarrow> fs" where
  "os_remove entry s =
     (if entry \<in> set (undeletable s) then s
      else s\<lparr>images_ready := map_option (removeAll entry) (images_ready s)\<rparr>)"

text \<open>The test \<open>parsed and parsed[0] == camera_id\<close> on an entry of the ready directory.\<close>

definition names_camera :: "string \<Rightarrow> string \<Rightarrow> bool" where
  "names_camera camera_id entry =
     (case parse_ready_filename entry of
        None \<Rightarrow> False
      | Some parsed \<Rightarrow> fst parsed = camera_id)"

definition remove_existing_ready_file :: "string \<Rightarrow> fs \<Rightarrow> fs" where
  "remove_existing_ready_file camera_id s =
     (case images_ready s of
        None \<Rightarrow> s
      | Some listing \<Rightarrow>
          fold (\<lambda>entry s'. if names_camera camera_id entry then os_remove entry s' else s')
               listing s)"

text \<open>
  \<open>shutil.copy2\<close> into the ready directory. It raises when the source file or the ready
  directory does not exist; \<open>_write_ready_image\<close> catches that and writes nothing.
\<close>

definition source_exists :: "fs \<Rightarrow> string \<Rightarrow> bool" where
  "source_exists s path =
     (case images_src s of
        None \<Rightarrow> False
      | Some listing \<Rightarrow>
          path \<in> set (map (path_join IMAGE_SRC_DIR) listing))"

definition copy2 :: "string \<Rightarrow> string \<Rightarrow> fs \<Rightarrow> fs" where
  "copy2 source_path destination_name s =
     (case images_ready s of
        None \<Rightarrow> s
      | Some listing \<Rightarrow>
          if source_exists s source_path
          then s\<lparr>images_ready :=
                   Some (if destination_name \<in> set listing then listing
                         else listing @ [destination_name])\<rparr>
          else s)"

text \<open>The extension computed at the top of \<open>_write_ready_image\<close> is never used.\<close>

definition artifact_name :: "string \<Rightarrow> string \<Rightarrow> string" where
  "artifact_name camera_id status = camera_id @ ''_'' @ status @ ''.jpg''"

definition write_ready_image :: "string \<Rightarrow> string \<Rightarrow> string \<Rightarrow> fs \<Rightarrow> fs" where
  "write_ready_image source_path camera_id status s =
     (let destination_name = artifact_name camera_id status
      in copy2 source_path destination_name (remove_existing_ready_file camera_id s))"

definition endswith :: "string \<Rightarrow> string \<Rightarrow> bool" where
  "endswith s e = (length e \<le> length s \<and> drop (length s - length e) s = e)"

definition list_source_images :: "fs \<Rightarrow> string list" where
  "list_source_images s =
     (case images_src s of
        None \<Rightarrow> []
      | Some listing \<Rightarrow>
          map (path_join IMAGE_SRC_DIR)
            (filter (\<lambda>entry.
                       (endswith (lower entry) ''.jpg'' \<or> endswith (lower entry) ''.jpeg''
                          \<or> endswith (lower entry) ''.png'')
                       \<and> startswith (fst (splitext entry)) ''CAM_'')
               listing))"

text \<open>The loop over \<open>detection_results.items()\<close>.\<close>

definition write_results :: "(string \<times> string) list \<Rightarrow> fs \<Rightarrow> fs" where
  "write_results detection_results s =
     fold (\<lambda>(img_path, status) s'.
             let camera_id = camera_id_from_path img_path;
                 status_token = (if upper status \<notin> set [''YES'', ''NO''] then ''NO''
                                 else upper status)
             in write_ready_image img_path camera_id status_token s')
          detection_results s"

text \<open>The loop \<open>for i in range(0, len(all_image_files), BATCH_SIZE)\<close>.\<close>

function process_batches :: "model \<Rightarrow> string list \<Rightarrow> nat \<Rightarrow> fs \<Rightarrow> fs" where
  "process_batches m all_image_files i s =
     (if i < length all_image_files
      then (let batch_paths = take BATCH_SIZE (drop i all_image_files);
                detection_results = detect_person_in_batch m batch_paths
            in process_batches m all_image_files (i + BATCH_SIZE)
                 (write_results detection_results s))
      else s)"
  by pat_completeness auto
termination
  by (relation "measure (\<lambda>(m, all_image_files, i, s). length all_image_files - i)")
     (auto simp: BATCH_SIZE_def)

declare process_batches.simps [simp del]

definition makedirs :: "fs \<Rightarrow> fs" where
  "makedirs s =
     s\<lparr>images_src := Some (case images_src s of None \<Rightarrow> [] | Some l \<Rightarrow> l),
       images_ready := Some (case images_ready s of None \<Rightarrow> [] | Some l \<Rightarrow> l)\<rparr>"

definition capture_and_update_images :: "model \<Rightarrow> fs \<Rightarrow> fs" where
  "capture_and_update_images m s =
     (let s' = makedirs s;
          all_image_files = list_source_images s'
      in if all_image_files = [] then s'
         else process_batches m all_image_files 0 s')"

text \<open>The search for the source image of a camera in \<open>process_force_requests\<close>.\<close>

fun find_source :: "string \<Rightarrow> string list \<Rightarrow> string option" where
  "find_source cam_id [] = None"
| "find_source cam_id (filename # listing) =
     (let (stem, ext) = splitext filename
      in if lower ext \<notin> set [''.jpg'', ''.jpeg'', ''.png''] then find_source cam_id listing
         else if stem = cam_id then Some (path_join IMAGE_SRC_DIR filename)
         else find_source cam_id listing)"

text \<open>
  The body of the loop of \<open>process_force_requests\<close>: one request. \<open>os.listdir\<close> of a
  missing source directory raises \<open>FileNotFoundError\<close>, which nothing catches.
\<close>

definition serve_request :: "model \<Rightarrow> string \<Rightarrow> fs \<Rightarrow> error + fs" where
  "serve_request m req s =
     (if \<not> startswith req ''FORCE_UPDATE_'' then Inr s
      else (let cam_id = strip (drop (length ''FORCE_UPDATE_'') req)
            in if cam_id = [] then Inr s
               else if \<not> startswith cam_id ''CAM_'' then Inr s
               else (case images_src s of
                       None \<Rightarrow> Inl FileNotFoundError
                     | Some listing \<Rightarrow>
                         (case find_source cam_id listing of
                            None \<Rightarrow> Inr s
                          | Some source_image_path \<Rightarrow>
                              (let detection_result =
                                     detect_person_in_batch m [source_image_path];
                                   status0 = upper (case map_of detection_result source_image_path of
                                                      None \<Rightarrow> ''NO'' | Some v \<Rightarrow> v);
                                   status = (if status0 \<notin> set [''YES'', ''NO''] then ''NO''
                                             else status0)
                               in append_message FORCE_SERVED_FEED (''UPDATED_'' @ cam_id)
                                    (write_ready_image source_image_path cam_id status s))))))"

fun serve_requests :: "model \<Rightarrow> string list \<Rightarrow> fs \<Rightarrow> error + fs" where
  "serve_requests m [] s = Inr s"
| "serve_requests m (req # requests) s =
     (case serve_request m req s of
        Inl e \<Rightarrow> Inl e
      | Inr s' \<Rightarrow> serve_requests m requests s')"

definition process_force_requests :: "model \<Rightarrow> fs \<Rightarrow> error + fs" where
  "process_force_requests m s =
     (case consume_messages FORCE_REQUEST_FEED s of
        Inl e \<Rightarrow> Inl e
      | Inr (requests, s') \<Rightarrow>
          if requests = [] then Inr s' else serve_requests m requests s')"

section \<open>What the claims observe\<close>





text \<open>A store with 30 source images, more than one batch.\<close>

definition many_camera_store :: fs where
  "many_camera_store =
     \<lparr>feed_files = Map.empty,
      images_src = Some (map (\<lambda>n. ''CAM_'' @ replicate n (CHR ''x'') @ ''.jpg'') [0..<30]),
      images_ready = Some [], undeletable = []\<rparr>"

text \<open>
  For the comparison of claim C8, following the words of the specification:
  \<open>capture_and_update_images\<close> with all source images submitted to the detector as one
  batch, whatever their number.
\<close>

definition capture_single_batch :: "model \<Rightarrow> fs \<Rightarrow> fs" where
  "capture_single_batch m s =
     (let s' = makedirs s;
          all_image_files = list_source_images s'
      in if all_image_files = [] then s'
         else write_results (detect_person_in_batch m all_image_files) s')"

section \<open>Properties of the string functions\<close>

lemma strip_Nil: "strip [] = []"
  by (simp add: strip_def lstrip_def rstrip_def)

lemma rstrip_append_nonspace: "\<not> isspace c \<Longrightarrow> rstrip (xs @ [c]) = xs @ [c]"
  by (simp add: rstrip_def)

lemma rstrip_eq_Nil_iff: "rstrip s = [] \<longleftrightarrow> list_all isspace s"
  by (simp add: rstrip_def list_all_iff)

lemma rstrip_last: "rstrip s \<noteq> [] \<Longrightarrow> \<not> isspace (last (rstrip s))"
proof -
  assume a: "rstrip s \<noteq> []"
  then have "dropWhile isspace (rev s) \<noteq> []" by (simp add: rstrip_def)
  then have "\<not> isspace (hd (dropWhile isspace (rev s)))" by (rule hd_dropWhile)
  moreover have "last (rstrip s) = hd (dropWhile isspace (rev s))"
    using a by (simp add: rstrip_def last_rev)
  ultimately show ?thesis by simp
qed

lemma strip_eq_Nil_iff: "strip s = [] \<longleftrightarrow> list_all isspace s"
proof
  assume "strip s = []"
  then have all: "list_all isspace (rstrip s)"
    by (simp add: strip_def lstrip_def list_all_iff)
  show "list_all isspace s"
  proof (rule ccontr)
    assume "\<not> list_all isspace s"
    then have ne: "rstrip s \<noteq> []" by (simp add: rstrip_eq_Nil_iff)
    then have "\<not> isspace (last (rstrip s))" by (rule rstrip_last)
    moreover have "last (rstrip s) \<in> set (rstrip s)" using ne by simp
    ultimately show False using all by (auto simp: list_all_iff)
  qed
next
  assume "list_all isspace s"
  then have "rstrip s = []" by (simp add: rstrip_eq_Nil_iff)
  then show "strip s = []" by (simp add: strip_def lstrip_def)
qed

lemma strip_hd: "strip s \<noteq> [] \<Longrightarrow> \<not> isspace (hd (strip s))"
  unfolding strip_def lstrip_def by (rule hd_dropWhile)

lemma strip_last: "strip s \<noteq> [] \<Longrightarrow> \<not> isspace (last (strip s))"
proof -
  assume a: "strip s \<noteq> []"
  then have ne: "rstrip s \<noteq> []" by (auto simp: strip_def lstrip_def)
  have "last (dropWhile isspace (rstrip s)) = last (rstrip s)"
    using a unfolding strip_def lstrip_def
    by (metis last_appendR takeWhile_dropWhile_id)
  then show ?thesis using rstrip_last[OF ne] by (simp add: strip_def lstrip_def)
qed

lemma strip_fixed: "s \<noteq> [] \<Longrightarrow> \<not> isspace (hd s) \<Longrightarrow> \<not> isspace (last s) \<Longrightarrow> strip s = s"
proof -
  assume a: "s \<noteq> []" "\<not> isspace (hd s)" "\<not> isspace (last s)"
  then have "rstrip s = s"
    by (metis append_butlast_last_id rstrip_append_nonspace)
  moreover have "lstrip s = s" using a by (cases s) (auto simp: lstrip_def)
  ultimately show ?thesis by (simp add: strip_def)
qed

lemma strip_idem: "strip (strip s) = strip s"
proof (cases "strip s = []")
  case True
  then show ?thesis by (simp add: strip_Nil)
next
  case False
  then show ?thesis by (intro strip_fixed strip_hd strip_last)
qed

section \<open>Properties of the feeds\<close>

lemma stripped_lines_member:
  "m \<in> set (stripped_lines t) \<Longrightarrow> m \<noteq> [] \<and> strip m = m"
  by (auto simp: stripped_lines_def strip_idem)

lemma feed_path_ok: "strip feed \<noteq> [] \<Longrightarrow> feed_path feed = Inr (path_join FEED_ROOT (strip feed @ ''.feed''))"
  by (simp add: feed_path_def Let_def)


lemma consume_ok:
  "strip feed \<noteq> [] \<Longrightarrow>
   consume_messages feed s =
     (case feed_files s (path_join FEED_ROOT (strip feed @ ''.feed'')) of
        None \<Rightarrow> Inr ([], s)
      | Some t \<Rightarrow> Inr (stripped_lines t,
          s\<lparr>feed_files := (feed_files s)(path_join FEED_ROOT (strip feed @ ''.feed'') \<mapsto> [])\<rparr>))"
  by (simp add: consume_messages_def feed_path_ok)

lemma peek_ok:
  "strip feed \<noteq> [] \<Longrightarrow>
   peek_messages feed s =
     (case feed_files s (path_join FEED_ROOT (strip feed @ ''.feed'')) of
        None \<Rightarrow> Inr ([], s)
      | Some t \<Rightarrow> Inr (stripped_lines t, s))"
  by (simp add: peek_messages_def feed_path_ok)




text \<open>
  Claim C9. For a feed whose name is not blank and any stored contents, \<open>peek_messages\<close>
  followed by \<open>consume_messages\<close> returns the same sequence of messages twice, and
  \<open>peek_messages\<close> leaves the store as it was.
\<close>

theorem peek_then_drain_same:
  assumes "strip feed \<noteq> []"
  shows "\<exists>msgs s'. peek_messages feed s = Inr (msgs, s)
                  \<and> consume_messages feed s = Inr (msgs, s')"
  using assms by (simp add: consume_ok peek_ok split: option.split)

theorem peek_then_drain_same_witness:
  "strip ''control'' \<noteq> []
   \<and> (\<exists>msgs s'.
        peek_messages ''control''
          (write_end ''feeds/control.feed'' (''SET_CAM_1_ON'' @ [NL]) empty_store)
          = Inr (msgs, write_end ''feeds/control.feed'' (''SET_CAM_1_ON'' @ [NL]) empty_store)
        \<and> consume_messages ''control''
          (write_end ''feeds/control.feed'' (''SET_CAM_1_ON'' @ [NL]) empty_store)
          = Inr (msgs, s'))"
proof -
  have h: "strip ''control'' \<noteq> []"
    by (simp add: strip_def lstrip_def rstrip_def isspace_def)
  show ?thesis
    using h peek_then_drain_same [OF h,
        of "write_end ''feeds/control.feed'' (''SET_CAM_1_ON'' @ [NL]) empty_store"]
    by simp
qed

text \<open>
  Claim C10. Every message that \<open>consume_messages\<close> or \<open>peek_messages\<close> returns is not
  empty, begins and ends with a character that is not whitespace (so \<open>strip\<close> leaves it
  as it is), and hence is not made of whitespace only: a whitespace-only message, whenever
  it was appended, is never among the messages returned.
\<close>

theorem returned_messages_stripped:
  assumes "peek_messages feed s = Inr (msgs, s') \<or> consume_messages feed s = Inr (msgs, s')"
    and "m \<in> set msgs"
  shows "m \<noteq> [] \<and> \<not> isspace (hd m) \<and> \<not> isspace (last m) \<and> strip m = m
         \<and> \<not> list_all isspace m"
proof -
  have "\<exists>t. m \<in> set (stripped_lines t)"
    using assms
    by (auto simp: peek_messages_def consume_messages_def
             split: sum.splits option.splits)
  then obtain t where "m \<in> set (stripped_lines t)" ..
  then have ne: "m \<noteq> []" and st: "strip m = m"
    by (simp_all add: stripped_lines_member)
  from ne st have "strip m \<noteq> []" by simp
  then have "\<not> isspace (hd (strip m))" "\<not> isspace (last (strip m))"
    "\<not> list_all isspace m"
    by (simp_all add: strip_hd strip_last strip_eq_Nil_iff)
  with ne st show ?thesis by simp
qed

theorem returned_messages_stripped_witness:
  "(peek_messages ''control''
      (write_end ''feeds/control.feed'' (''  SET_CAM_1_ON '' @ [NL]) empty_store)
      = Inr ([''SET_CAM_1_ON''],
             write_end ''feeds/control.feed'' (''  SET_CAM_1_ON '' @ [NL]) empty_store))
   \<and> ''SET_CAM_1_ON'' \<in> set [''SET_CAM_1_ON'']
   \<and> strip ''SET_CAM_1_ON'' = ''SET_CAM_1_ON''
   \<and> \<not> list_all isspace ''SET_CAM_1_ON''"
proof -
  have p: "peek_messages ''control''
      (write_end ''feeds/control.feed'' (''  SET_CAM_1_ON '' @ [NL]) empty_store)
      = Inr ([''SET_CAM_1_ON''],
             write_end ''feeds/control.feed'' (''  SET_CAM_1_ON '' @ [NL]) empty_store)"
    by (simp add: peek_messages_def feed_path_def path_join_def FEED_ROOT_def write_end_def
          file_text_def empty_store_def stripped_lines_def strip_def lstrip_def rstrip_def
          isspace_def NL_def CR_def)
  have m: "''SET_CAM_1_ON'' \<in> set [''SET_CAM_1_ON'']" by simp
  show ?thesis
    using p returned_messages_stripped [OF disjI1 [OF p] m] by simp
qed

















section \<open>Properties of the control protocol\<close>

lemma rsplit_underscore_append:
  assumes "CHR ''_'' \<notin> set b"
  shows "rsplit_underscore (a @ CHR ''_'' # b) = Some (a, b)"
proof -
  have tw: "takeWhile (\<lambda>c. c \<noteq> CHR ''_'') (rev b @ CHR ''_'' # rev a) = rev b"
    using assms by (auto simp: takeWhile_tail)
  then show ?thesis
    by (simp add: rsplit_underscore_def Let_def)
qed

lemma rstrip_nl_snoc: "c \<noteq> NL \<Longrightarrow> rstrip_nl (x @ [c]) = x @ [c]"
  by (simp add: rstrip_nl_def)

lemma power_feed_path: "feed_path POWER_FEED = Inr (path_join FEED_ROOT ''POWER.feed'')"
  by (simp add: feed_path_def POWER_FEED_def strip_def lstrip_def rstrip_def isspace_def)

lemma command_directive_ends:
  "command_directive c = Some d \<Longrightarrow> rstrip_nl d = d"
proof -
  assume a: "command_directive c = Some d"
  then obtain target st where d: "d = target @ ''_'' @ st" and st: "st = ''ON'' \<or> st = ''OFF''"
    by (auto simp: command_directive_def Let_def split: if_splits option.splits)
  from st show ?thesis
  proof
    assume "st = ''ON''"
    then have "d = (target @ ''_O'') @ [CHR ''N'']" using d by simp
    then show ?thesis using rstrip_nl_snoc [of "CHR ''N''" "target @ ''_O''"]
      by (simp add: NL_def)
  next
    assume "st = ''OFF''"
    then have "d = (target @ ''_OF'') @ [CHR ''F'']" using d by simp
    then show ?thesis using rstrip_nl_snoc [of "CHR ''F''" "target @ ''_OF''"]
      by (simp add: NL_def)
  qed
qed

lemma handle_command_effect:
  "handle_command c s =
     Inr (case command_directive c of
            None \<Rightarrow> s
          | Some d \<Rightarrow> write_end (path_join FEED_ROOT ''POWER.feed'') (d @ [NL]) s)"
  by (auto simp: handle_command_def write_to_power_feed_def append_message_def
        power_feed_path command_directive_ends split: option.splits)

lemma handle_commands_effect:
  "handle_commands cs s =
     Inr (fold (\<lambda>d. write_end (path_join FEED_ROOT ''POWER.feed'') (d @ [NL]))
            (List.map_filter command_directive cs) s)"
proof (induction cs arbitrary: s)
  case Nil
  show ?case by simp
next
  case (Cons c cs)
  show ?case
    by (cases "command_directive c")
       (simp_all add: handle_command_effect Cons)
qed

lemma command_directive_accept:
  assumes "strip c = c" and "startswith c ''SET_CAM_''"
    and "c = ''SET_'' @ target @ ''_'' @ st" and "CHR ''_'' \<notin> set st"
    and "upper st = ''ON'' \<or> upper st = ''OFF''"
  shows "command_directive c = Some (target @ ''_'' @ upper st)"
proof -
  have "rsplit_underscore (drop (length ''SET_'') c) = Some (target, st)"
    using assms(3,4) rsplit_underscore_append [of st target] by simp
  then show ?thesis
    using assms(1,2,5) by (auto simp: command_directive_def Let_def)
qed

lemma command_directive_reject_prefix:
  "\<not> startswith (strip c) ''SET_CAM_'' \<Longrightarrow> command_directive c = None"
  by (simp add: command_directive_def Let_def)

lemma command_directive_reject_state:
  assumes "strip c = ''SET_'' @ target @ ''_'' @ st" and "CHR ''_'' \<notin> set st"
    and "upper st \<noteq> ''ON''" and "upper st \<noteq> ''OFF''"
  shows "command_directive c = None"
proof -
  have "rsplit_underscore (drop (length ''SET_'') (strip c)) = Some (target, st)"
    using assms(1,2) rsplit_underscore_append [of st target] by simp
  then show ?thesis
    using assms(3,4) by (auto simp: command_directive_def Let_def)
qed


lemma control_feed_path: "feed_path CONTROL_FEED = Inr (path_join FEED_ROOT ''control.feed'')"
  by (simp add: feed_path_def CONTROL_FEED_def strip_def lstrip_def rstrip_def isspace_def)

lemma consume_member_stripped:
  "consume_messages feed s = Inr (msgs, s') \<Longrightarrow> m \<in> set msgs \<Longrightarrow> strip m = m"
  by (auto simp: consume_messages_def stripped_lines_member split: sum.splits option.splits)

text \<open>
  Claim C1, as amended. \<open>read_control_feed\<close> never fails. Of the messages it drains from
  the control feed, in order, each one with a directive adds exactly one line, that
  directive, to the power feed, and each one without adds nothing. A drained message
  \<open>SET_<target>_<state>\<close> that starts with \<open>SET_CAM_\<close> and whose last token, in upper
  case, is \<open>ON\<close> or \<open>OFF\<close> has the directive \<open><target>_<STATE>\<close>; the target may contain
  underscores. A message that does not start with \<open>SET_CAM_\<close>, or whose last token in
  upper case is neither \<open>ON\<close> nor \<open>OFF\<close>, has none.
\<close>

theorem control_commands_forwarded:
  assumes "consume_messages CONTROL_FEED s = Inr (commands, s1)"
  shows "read_control_feed s =
           Inr (fold (\<lambda>d. write_end (path_join FEED_ROOT ''POWER.feed'') (d @ [NL]))
                  (List.map_filter command_directive commands) s1)
         \<and> (\<forall>c \<in> set commands. \<forall>target st.
               startswith c ''SET_CAM_'' \<and> c = ''SET_'' @ target @ ''_'' @ st
               \<and> CHR ''_'' \<notin> set st \<and> (upper st = ''ON'' \<or> upper st = ''OFF'')
               \<longrightarrow> command_directive c = Some (target @ ''_'' @ upper st))
         \<and> (\<forall>c \<in> set commands.
               \<not> startswith c ''SET_CAM_'' \<longrightarrow> command_directive c = None)
         \<and> (\<forall>c \<in> set commands. \<forall>target st.
               c = ''SET_'' @ target @ ''_'' @ st \<and> CHR ''_'' \<notin> set st
               \<and> upper st \<noteq> ''ON'' \<and> upper st \<noteq> ''OFF''
               \<longrightarrow> command_directive c = None)"
proof -
  have run: "read_control_feed s =
           Inr (fold (\<lambda>d. write_end (path_join FEED_ROOT ''POWER.feed'') (d @ [NL]))
                  (List.map_filter command_directive commands) s1)"
    using assms by (simp add: read_control_feed_def handle_commands_effect)
  have st: "\<And>c. c \<in> set commands \<Longrightarrow> strip c = c"
    using assms by (rule consume_member_stripped)
  have acc: "\<forall>c \<in> set commands. \<forall>target st.
               startswith c ''SET_CAM_'' \<and> c = ''SET_'' @ target @ ''_'' @ st
               \<and> CHR ''_'' \<notin> set st \<and> (upper st = ''ON'' \<or> upper st = ''OFF'')
               \<longrightarrow> command_directive c = Some (target @ ''_'' @ upper st)"
    using st command_directive_accept by blast
  have rej1: "\<forall>c \<in> set commands.
               \<not> startswith c ''SET_CAM_'' \<longrightarrow> command_directive c = None"
    using st command_directive_reject_prefix by simp
  have rej2: "\<forall>c \<in> set commands. \<forall>target st.
               c = ''SET_'' @ target @ ''_'' @ st \<and> CHR ''_'' \<notin> set st
               \<and> upper st \<noteq> ''ON'' \<and> upper st \<noteq> ''OFF''
               \<longrightarrow> command_directive c = None"
    using st command_directive_reject_state by metis
  from run acc rej1 rej2 show ?thesis by blast
qed

lemma directive_front_door:
  "command_directive ''SET_CAM_front_door_ON'' = Some ''CAM_front_door_ON''"
  by (simp add: command_directive_def strip_def lstrip_def rstrip_def isspace_def
        startswith_def rsplit_underscore_def upper_def upper_char_def)

lemma directive_turn_on: "command_directive ''TURN_ON_CAM_X'' = None"
  by (simp add: command_directive_def strip_def lstrip_def rstrip_def isspace_def
        startswith_def)

theorem control_commands_forwarded_witness:
  "consume_messages CONTROL_FEED
     (write_end ''feeds/control.feed''
        (''SET_CAM_front_door_ON'' @ [NL] @ ''TURN_ON_CAM_X'' @ [NL]) empty_store)
     = Inr ([''SET_CAM_front_door_ON'', ''TURN_ON_CAM_X''],
            write_end ''feeds/control.feed'' [] empty_store)
   \<and> read_control_feed
     (write_end ''feeds/control.feed''
        (''SET_CAM_front_door_ON'' @ [NL] @ ''TURN_ON_CAM_X'' @ [NL]) empty_store)
     = Inr (write_end ''feeds/POWER.feed'' (''CAM_front_door_ON'' @ [NL])
              (write_end ''feeds/control.feed'' [] empty_store))
   \<and> command_directive ''SET_CAM_front_door_ON'' = Some ''CAM_front_door_ON''
   \<and> command_directive ''TURN_ON_CAM_X'' = None"
proof -
  have h: "consume_messages CONTROL_FEED
     (write_end ''feeds/control.feed''
        (''SET_CAM_front_door_ON'' @ [NL] @ ''TURN_ON_CAM_X'' @ [NL]) empty_store)
     = Inr ([''SET_CAM_front_door_ON'', ''TURN_ON_CAM_X''],
            write_end ''feeds/control.feed'' [] empty_store)"
    by (simp add: consume_messages_def control_feed_path path_join_def
          FEED_ROOT_def write_end_def file_text_def empty_store_def stripped_lines_def
          strip_def lstrip_def rstrip_def isspace_def NL_def CR_def)
  show ?thesis
    using h control_commands_forwarded [OF h]
    by (simp add: directive_front_door directive_turn_on path_join_def FEED_ROOT_def)
qed

text \<open>
  The claim as stated fails twice. \<open>SET_LIGHT_ON\<close> has the prefix \<open>SET_\<close> and the last
  token \<open>ON\<close>, and nothing is written to the power feed. \<open>SET_CAM_1_on\<close> has a last token
  that is not \<open>ON\<close> or \<open>OFF\<close>, and \<open>CAM_1_ON\<close> is written.
\<close>

theorem control_commands_counterexample:
  "startswith ''SET_LIGHT_ON'' ''SET_''
   \<and> rsplit_underscore ''SET_LIGHT_ON'' = Some (''SET_LIGHT'', ''ON'')
   \<and> read_control_feed (write_end ''feeds/control.feed'' (''SET_LIGHT_ON'' @ [NL]) empty_store)
       = Inr (write_end ''feeds/control.feed'' [] empty_store)
   \<and> feed_files (write_end ''feeds/control.feed'' [] empty_store) ''feeds/POWER.feed'' = None
   \<and> rsplit_underscore ''SET_CAM_1_on'' = Some (''SET_CAM_1'', ''on'')
   \<and> read_control_feed (write_end ''feeds/control.feed'' (''SET_CAM_1_on'' @ [NL]) empty_store)
       = Inr (write_end ''feeds/POWER.feed'' (''CAM_1_ON'' @ [NL])
                (write_end ''feeds/control.feed'' [] empty_store))"
proof -
  have d1: "command_directive ''SET_LIGHT_ON'' = None"
    by (simp add: command_directive_def strip_def lstrip_def rstrip_def isspace_def
          startswith_def)
  have d2: "command_directive ''SET_CAM_1_on'' = Some ''CAM_1_ON''"
    by (simp add: command_directive_def strip_def lstrip_def rstrip_def isspace_def
          startswith_def rsplit_underscore_def upper_def upper_char_def)
  have c1: "consume_messages CONTROL_FEED
       (write_end ''feeds/control.feed'' (''SET_LIGHT_ON'' @ [NL]) empty_store)
     = Inr ([''SET_LIGHT_ON''], write_end ''feeds/control.feed'' [] empty_store)"
    by (simp add: consume_messages_def control_feed_path path_join_def
          FEED_ROOT_def write_end_def file_text_def empty_store_def stripped_lines_def
          strip_def lstrip_def rstrip_def isspace_def NL_def CR_def)
  have c2: "consume_messages CONTROL_FEED
       (write_end ''feeds/control.feed'' (''SET_CAM_1_on'' @ [NL]) empty_store)
     = Inr ([''SET_CAM_1_on''], write_end ''feeds/control.feed'' [] empty_store)"
    by (simp add: consume_messages_def control_feed_path path_join_def
          FEED_ROOT_def write_end_def file_text_def empty_store_def stripped_lines_def
          strip_def lstrip_def rstrip_def isspace_def NL_def CR_def)
  have r1: "read_control_feed (write_end ''feeds/control.feed'' (''SET_LIGHT_ON'' @ [NL]) empty_store)
       = Inr (write_end ''feeds/control.feed'' [] empty_store)"
    unfolding read_control_feed_def c1 by (simp add: handle_commands_effect d1)
  have r2: "read_control_feed (write_end ''feeds/control.feed'' (''SET_CAM_1_on'' @ [NL]) empty_store)
       = Inr (write_end ''feeds/POWER.feed'' (''CAM_1_ON'' @ [NL])
                (write_end ''feeds/control.feed'' [] empty_store))"
    unfolding read_control_feed_def c2
    by (simp add: handle_commands_effect d2 path_join_def FEED_ROOT_def)
  have n: "feed_files (write_end ''feeds/control.feed'' [] empty_store) ''feeds/POWER.feed'' = None"
    by (simp add: write_end_def empty_store_def)
  have s1: "startswith ''SET_LIGHT_ON'' ''SET_''" by (simp add: startswith_def)
  have s2: "rsplit_underscore ''SET_LIGHT_ON'' = Some (''SET_LIGHT'', ''ON'')"
    by (simp add: rsplit_underscore_def)
  have s3: "rsplit_underscore ''SET_CAM_1_on'' = Some (''SET_CAM_1'', ''on'')"
    by (simp add: rsplit_underscore_def)
  from s1 s2 r1 n s3 r2 show ?thesis by blast
qed

section \<open>Properties of the inactivity monitor\<close>









section \<open>Properties of the file names\<close>

lemma rfind_append_notin: "c \<notin> set b \<Longrightarrow> rfind c (a @ b) = rfind c a"
proof -
  assume nb: "c \<notin> set b"
  then have "\<And>x. x \<in> set (rev b) \<Longrightarrow> x \<noteq> c" by auto
  then have "takeWhile (\<lambda>d. d \<noteq> c) (rev b @ rev a) = rev b @ takeWhile (\<lambda>d. d \<noteq> c) (rev a)"
    by (rule takeWhile_append2)
  then show ?thesis using nb by (simp add: rfind_def)
qed
lemma rfind_lt: "rfind c a = Some i \<Longrightarrow> i < length a"
  by (cases a) (auto simp: rfind_def split: if_splits)
lemma rfind_last: "c \<notin> set e \<Longrightarrow> rfind c (x @ c # e) = Some (length x)"
proof -
  assume ne: "c \<notin> set e"
  then have "takeWhile (\<lambda>d. d \<noteq> c) (rev e @ c # rev x) = rev e"
    by (auto simp: takeWhile_tail)
  then show ?thesis by (simp add: rfind_def)
qed

lemma splitext_suffix:
  assumes "CHR ''.'' \<notin> set e" and "CHR ''/'' \<notin> set e" and "CHR ''/'' \<notin> set b"
    and "\<exists>ch \<in> set b. ch \<noteq> CHR ''.''"
  shows "splitext (a @ b @ CHR ''.'' # e) = (a @ b, CHR ''.'' # e)"
proof -
  define p where "p = a @ b @ CHR ''.'' # e"
  define n where "n = length a + length b"
  have dot: "rfind (CHR ''.'') p = Some n"
    using rfind_last [OF assms(1), of "a @ b"] by (simp add: p_def n_def)
  have "CHR ''/'' \<notin> set (b @ CHR ''.'' # e)" using assms(2,3) by simp
  then have sl: "rfind (CHR ''/'') p = rfind (CHR ''/'') a"
    unfolding p_def by (rule rfind_append_notin)
  define fi where "fi = (case rfind (CHR ''/'') a of None \<Rightarrow> 0 | Some i \<Rightarrow> Suc i)"
  have fi: "fi \<le> length a"
  proof (cases "rfind (CHR ''/'') a")
    case None
    then show ?thesis by (simp add: fi_def)
  next
    case (Some i)
    then have "i < length a" by (rule rfind_lt)
    then show ?thesis by (simp add: fi_def Some)
  qed
  have "take (n - fi) (drop fi p) = drop fi a @ b"
    using fi by (simp add: p_def n_def)
  then have ex: "\<exists>ch \<in> set (take (n - fi) (drop fi p)). ch \<noteq> CHR ''.''"
    using assms(4) by auto
  have le: "fi \<le> n" using fi by (simp add: n_def)
  have unf: "splitext p =
     (if fi \<le> n \<and> (\<exists>c \<in> set (take (n - fi) (drop fi p)). c \<noteq> CHR ''.'')
      then (take n p, drop n p) else (p, []))"
    by (simp only: splitext_def dot sl fi_def option.case Let_def)
  have "splitext p = (take n p, drop n p)"
    unfolding unf using le ex by (simp only: if_True simp_thms)
  also have "\<dots> = (a @ b, CHR ''.'' # e)" by (simp add: p_def n_def)
  finally show ?thesis by (simp only: p_def)
qed







section \<open>Properties of the status artifacts\<close>

lemma os_remove_fields [simp]:
  "images_src (os_remove e s) = images_src s"
  "undeletable (os_remove e s) = undeletable s"
  "feed_files (os_remove e s) = feed_files s"
  by (simp_all add: os_remove_def)

lemma remove_fold:
  "images_ready s = Some L \<Longrightarrow>
   fold (\<lambda>entry s'. if names_camera cam entry then os_remove entry s' else s') xs s
     = s\<lparr>images_ready :=
          Some (filter (\<lambda>e. \<not> (e \<in> set xs \<and> names_camera cam e \<and> e \<notin> set (undeletable s))) L)\<rparr>"
proof (induction xs arbitrary: s L)
  case Nil
  then show ?case by simp
next
  case (Cons x xs)
  show ?case
  proof (cases "names_camera cam x \<and> x \<notin> set (undeletable s)")
    case True
    let ?s1 = "s\<lparr>images_ready := Some (removeAll x L)\<rparr>"
    have r: "os_remove x s = ?s1" using True Cons.prems by (simp add: os_remove_def)
    have "images_ready ?s1 = Some (removeAll x L)" by simp
    from Cons.IH [OF this]
    have "fold (\<lambda>entry s'. if names_camera cam entry then os_remove entry s' else s') xs ?s1
      = ?s1\<lparr>images_ready :=
          Some (filter (\<lambda>e. \<not> (e \<in> set xs \<and> names_camera cam e \<and> e \<notin> set (undeletable ?s1)))
                  (removeAll x L))\<rparr>" .
    moreover have "filter (\<lambda>e. \<not> (e \<in> set xs \<and> names_camera cam e \<and> e \<notin> set (undeletable s)))
                  (removeAll x L)
      = filter (\<lambda>e. \<not> (e \<in> set (x # xs) \<and> names_camera cam e \<and> e \<notin> set (undeletable s))) L"
      using True by (induction L) auto
    ultimately show ?thesis using True by (simp add: r)
  next
    case False
    have r: "(if names_camera cam x then os_remove x s else s) = s"
      using False by (auto simp: os_remove_def)
    have "filter (\<lambda>e. \<not> (e \<in> set xs \<and> names_camera cam e \<and> e \<notin> set (undeletable s))) L
      = filter (\<lambda>e. \<not> (e \<in> set (x # xs) \<and> names_camera cam e \<and> e \<notin> set (undeletable s))) L"
      using False by (intro filter_cong) auto
    then show ?thesis using Cons.IH [OF Cons.prems] by (simp add: r)
  qed
qed

lemma remove_existing_effect:
  "remove_existing_ready_file cam s =
     (case images_ready s of
        None \<Rightarrow> s
      | Some L \<Rightarrow>
          s\<lparr>images_ready :=
              Some (filter (\<lambda>e. \<not> (names_camera cam e \<and> e \<notin> set (undeletable s))) L)\<rparr>)"
proof (cases "images_ready s")
  case None
  then show ?thesis by (simp add: remove_existing_ready_file_def)
next
  case (Some L)
  have "filter (\<lambda>e. \<not> (e \<in> set L \<and> names_camera cam e \<and> e \<notin> set (undeletable s))) L
      = filter (\<lambda>e. \<not> (names_camera cam e \<and> e \<notin> set (undeletable s))) L"
    by (intro filter_cong) auto
  then show ?thesis
    using remove_fold [OF Some, of cam L] by (simp add: remove_existing_ready_file_def Some)
qed

lemma write_ready_image_effect:
  "write_ready_image src cam st s =
     (case images_ready s of
        None \<Rightarrow> s
      | Some L \<Rightarrow>
          (let L' = filter (\<lambda>e. \<not> (names_camera cam e \<and> e \<notin> set (undeletable s))) L
           in if source_exists s src
              then s\<lparr>images_ready :=
                       Some (if artifact_name cam st \<in> set L' then L'
                             else L' @ [artifact_name cam st])\<rparr>
              else s\<lparr>images_ready := Some L'\<rparr>))"
  by (cases "images_ready s")
     (simp_all add: write_ready_image_def remove_existing_effect copy2_def source_exists_def
        Let_def)

lemma write_fields [simp]:
  "images_src (write_ready_image src cam st s) = images_src s"
  "undeletable (write_ready_image src cam st s) = undeletable s"
  "feed_files (write_ready_image src cam st s) = feed_files s"
  by (simp_all add: write_ready_image_effect Let_def split: option.split)

lemma write_source_exists [simp]:
  "source_exists (write_ready_image src cam st s) p = source_exists s p"
  by (simp add: source_exists_def)

lemma write_ready_exists:
  "images_ready (write_ready_image src cam st s) = None \<longleftrightarrow> images_ready s = None"
  by (simp add: write_ready_image_effect Let_def split: option.split)











section \<open>Properties of the force-update protocol\<close>












section \<open>Properties of the batch path\<close>

lemma fold_update_keys:
  "distinct ps \<Longrightarrow> set ps \<inter> set (map fst d0) = {} \<Longrightarrow>
   map fst (fold (\<lambda>p d. AList.update p (f p) d) ps d0) = map fst d0 @ ps"
proof (induction ps arbitrary: d0)
  case Nil
  show ?case by simp
next
  case (Cons p ps)
  have k: "map fst (AList.update p (f p) d0) = map fst d0 @ [p]"
    using Cons.prems(2) by (simp add: update_keys)
  have "map fst (fold (\<lambda>p d. AList.update p (f p) d) ps (AList.update p (f p) d0))
      = map fst (AList.update p (f p) d0) @ ps"
    using Cons.prems by (intro Cons.IH) (auto simp: k)
  then show ?case by (simp add: k)
qed

lemma fold_update_map_of:
  "map_of (fold (\<lambda>p d. AList.update p (f p) d) ps d0) q
     = (if q \<in> set ps then Some (f q) else map_of d0 q)"
  by (induction ps arbitrary: d0) (auto simp: update_conv')

lemma mark_keys:
  "set ps \<subseteq> set (map fst d) \<Longrightarrow> map fst (mark_detections ps i bs d) = map fst d"
proof (induction bs arbitrary: i d)
  case Nil
  show ?case by simp
next
  case (Cons b bs)
  show ?case
  proof (cases "0 < b \<and> i < length ps")
    case True
    then have "ps ! i \<in> set (map fst d)" using Cons.prems by auto
    then have k: "map fst (AList.update (ps ! i) ''YES'' d) = map fst d"
      by (simp add: update_keys)
    have "map fst (mark_detections ps (Suc i) bs (AList.update (ps ! i) ''YES'' d))
        = map fst (AList.update (ps ! i) ''YES'' d)"
      using Cons.prems by (intro Cons.IH) (simp add: k)
    then show ?thesis using True by (simp add: k)
  next
    case False
    then show ?thesis using Cons.IH [OF Cons.prems] by auto
  qed
qed

lemma nth_Cons_shift:
  "i < j \<Longrightarrow> (j - i < length (b # bs) \<and> 0 < (b # bs) ! (j - i))
     = (j - Suc i < length bs \<and> 0 < bs ! (j - Suc i))"
proof -
  assume "i < j"
  then have "j - i = Suc (j - Suc i)" by simp
  then show ?thesis by simp
qed

lemma mark_map_of:
  "distinct ps \<Longrightarrow> j < length ps \<Longrightarrow>
   map_of (mark_detections ps i bs d) (ps ! j)
     = (if i \<le> j \<and> j - i < length bs \<and> 0 < bs ! (j - i) then Some ''YES''
        else map_of d (ps ! j))"
proof (induction bs arbitrary: i d)
  case Nil
  show ?case by simp
next
  case (Cons b bs)
  consider (lt) "j < i" | (eq) "j = i" | (gt) "i < j" by linarith
  then show ?case
  proof cases
    case lt
    have ih: "map_of (mark_detections ps (Suc i) bs d') (ps ! j) = map_of d' (ps ! j)" for d'
      unfolding Cons.IH [OF Cons.prems] using lt by simp
    have ne: "ps ! i \<noteq> ps ! j" if "i < length ps"
      using Cons.prems lt that by (simp add: nth_eq_iff_index_eq)
    show ?thesis using lt ih ne by (auto simp: update_conv')
  next
    case eq
    have ih: "map_of (mark_detections ps (Suc i) bs d') (ps ! j) = map_of d' (ps ! j)" for d'
      unfolding Cons.IH [OF Cons.prems] using eq by simp
    show ?thesis using eq ih Cons.prems(2) by (auto simp: update_conv')
  next
    case gt
    have il: "i < length ps" using gt Cons.prems(2) by simp
    have ih: "map_of (mark_detections ps (Suc i) bs d') (ps ! j)
        = (if j - Suc i < length bs \<and> 0 < bs ! (j - Suc i) then Some ''YES''
           else map_of d' (ps ! j))" for d'
      unfolding Cons.IH [OF Cons.prems] using gt by simp
    have ne: "ps ! i \<noteq> ps ! j"
      using Cons.prems gt il by (simp add: nth_eq_iff_index_eq)
    have sh: "(i \<le> j \<and> j - i < length (b # bs) \<and> 0 < (b # bs) ! (j - i))
        = (j - Suc i < length bs \<and> 0 < bs ! (j - Suc i))"
      using gt nth_Cons_shift [OF gt, of b bs] by simp
    show ?thesis
      unfolding sh using il ih ne by (simp add: update_conv')
  qed
qed

lemma dict_by_keys:
  assumes "distinct (map fst d)"
  shows "d = map (\<lambda>k. (k, the (map_of d k))) (map fst d)"
proof -
  have "(fst kv, the (map_of d (fst kv))) = kv" if "kv \<in> set d" for kv
  proof -
    obtain k v where kv: "kv = (k, v)" by (cases kv) auto
    then have "map_of d k = Some v" using assms that by simp
    then show ?thesis by (simp add: kv)
  qed
  then have "map (\<lambda>kv. (fst kv, the (map_of d (fst kv)))) d = map (\<lambda>kv. kv) d"
    by (intro map_cong) auto
  then show ?thesis by (simp add: comp_def)
qed

lemma detect_model_keys:
  "distinct ps \<Longrightarrow> map fst (detect_person_in_batch (Model predict) ps) = ps"
proof -
  assume d: "distinct ps"
  let ?r = "fold (\<lambda>path d. AList.update path ''NO'' d) ps []"
  have k: "map fst ?r = ps"
    using fold_update_keys [OF d, of "[]" "\<lambda>p. ''NO''"] by simp
  then have "map fst (mark_detections ps 0 bs ?r) = ps" for bs
    using mark_keys [of ps ?r 0 bs] by simp
  with k show ?thesis
    by (simp add: detect_person_in_batch_def Let_def split: option.split)
qed

lemma detect_model_map_of:
  assumes "distinct ps" and "j < length ps"
  shows "map_of (detect_person_in_batch (Model predict) ps) (ps ! j)
     = Some (case predict ps of
               None \<Rightarrow> ''NO''
             | Some predictions \<Rightarrow>
                 if j < length predictions \<and> 0 < predictions ! j then ''YES'' else ''NO'')"
proof -
  let ?r = "fold (\<lambda>path d. AList.update path ''NO'' d) ps []"
  have r: "map_of ?r (ps ! j) = Some ''NO''"
    using assms(2) by (simp add: fold_update_map_of)
  show ?thesis
  proof (cases "predict ps")
    case None
    then show ?thesis by (simp add: detect_person_in_batch_def r)
  next
    case (Some bs)
    have "map_of (mark_detections ps 0 bs ?r) (ps ! j)
        = (if j < length bs \<and> 0 < bs ! j then Some ''YES'' else Some ''NO'')"
      using mark_map_of [OF assms, of 0 bs ?r] r by simp
    then show ?thesis by (simp add: detect_person_in_batch_def Some)
  qed
qed

lemma write_results_Cons:
  "write_results ((p, st) # d) s =
     write_results d
       (write_ready_image p (camera_id_from_path p)
          (if upper st \<notin> set [''YES'', ''NO''] then ''NO'' else upper st) s)"
  by (simp add: write_results_def Let_def)

lemma write_results_Nil: "write_results [] s = s"
  by (simp add: write_results_def)

lemma write_results_fields:
  "images_src (write_results d s) = images_src s
   \<and> (images_ready (write_results d s) = None \<longleftrightarrow> images_ready s = None)"
proof (induction d arbitrary: s)
  case Nil
  show ?case by (simp add: write_results_Nil)
next
  case (Cons c d)
  obtain p st where c: "c = (p, st)" by (cases c) auto
  show ?case unfolding c write_results_Cons
    using Cons.IH by (simp add: write_ready_exists)
qed




text \<open>
  \<open>capture_and_update_images\<close> creates both directories first, and every path it submits
  comes from the listing of the source directory: the ready directory exists and the
  sources exist when a batch is processed.
\<close>

lemma capture_batch_preconditions:
  "images_ready (makedirs s) \<noteq> None
   \<and> (\<forall>p \<in> set (list_source_images (makedirs s)). source_exists (makedirs s) p)"
  by (auto simp: makedirs_def list_source_images_def source_exists_def)





lemma detect_per_path:
  assumes "distinct ps"
  shows "detect_person_in_batch (Model (\<lambda>paths. Some (map boxes paths))) ps
           = map (\<lambda>p. (p, if 0 < boxes p then ''YES'' else ''NO'')) ps"
proof -
  define d where "d = detect_person_in_batch (Model (\<lambda>paths. Some (map boxes paths))) ps"
  have keys: "map fst d = ps" unfolding d_def using assms by (rule detect_model_keys)
  have "the (map_of d p) = (if 0 < boxes p then ''YES'' else ''NO'')" if "p \<in> set ps" for p
  proof -
    from that obtain j where j: "j < length ps" "ps ! j = p"
      unfolding in_set_conv_nth by blast
    show ?thesis
      using detect_model_map_of [OF assms j(1), of "\<lambda>paths. Some (map boxes paths)"] j
      by (simp add: d_def)
  qed
  then have m: "map (\<lambda>k. (k, the (map_of d k))) ps
      = map (\<lambda>p. (p, if 0 < boxes p then ''YES'' else ''NO'')) ps"
    by (intro map_cong) auto
  have e: "d = map (\<lambda>k. (k, the (map_of d k))) ps"
    using dict_by_keys [of d] assms unfolding keys by blast
  from e m have "d = map (\<lambda>p. (p, if 0 < boxes p then ''YES'' else ''NO'')) ps"
    by (rule trans)
  then show ?thesis unfolding d_def .
qed

lemma detect_coin:
  assumes "distinct ps"
  shows "detect_person_in_batch (NoModel coin) ps
           = map (\<lambda>p. (p, if coin p then ''YES'' else ''NO'')) ps"
proof -
  define d where "d = detect_person_in_batch (NoModel coin) ps"
  have keys: "map fst d = ps"
    using fold_update_keys [OF assms, of "[]" "\<lambda>p. if coin p then ''YES'' else ''NO''"]
    by (simp add: d_def detect_person_in_batch_def)
  have "the (map_of d p) = (if coin p then ''YES'' else ''NO'')" if "p \<in> set ps" for p
    using that by (simp add: d_def detect_person_in_batch_def fold_update_map_of)
  then have m: "map (\<lambda>k. (k, the (map_of d k))) ps
      = map (\<lambda>p. (p, if coin p then ''YES'' else ''NO'')) ps"
    by (intro map_cong) auto
  have e: "d = map (\<lambda>k. (k, the (map_of d k))) ps"
    using dict_by_keys [of d] assms unfolding keys by blast
  from e m have "d = map (\<lambda>p. (p, if coin p then ''YES'' else ''NO'')) ps"
    by (rule trans)
  then show ?thesis unfolding d_def .
qed

lemma write_results_append:
  "write_results (a @ b) s = write_results b (write_results a s)"
  by (simp add: write_results_def)

lemma batches_as_one:
  assumes "\<And>ps. distinct ps \<Longrightarrow> detect_person_in_batch m ps = map (\<lambda>p. (p, v p)) ps"
    and "distinct all_files"
  shows "process_batches m all_files i s
           = write_results (map (\<lambda>p. (p, v p)) (drop i all_files)) s"
  using assms
proof (induction m all_files i s rule: process_batches.induct)
  case (1 m all_files i s)
  show ?case
  proof (cases "i < length all_files")
    case False
    then show ?thesis
      by (subst process_batches.simps) (simp add: write_results_Nil)
  next
    case True
    define batch where "batch = take BATCH_SIZE (drop i all_files)"
    have db: "distinct batch" using "1.prems"(2) by (simp add: batch_def)
    have det: "detect_person_in_batch m batch = map (\<lambda>p. (p, v p)) batch"
      using db by (rule "1.prems"(1))
    have step: "process_batches m all_files i s
        = process_batches m all_files (i + BATCH_SIZE)
            (write_results (detect_person_in_batch m batch) s)"
      using True by (subst process_batches.simps) (simp add: batch_def Let_def)
    have ih: "process_batches m all_files (i + BATCH_SIZE)
            (write_results (detect_person_in_batch m batch) s)
        = write_results (map (\<lambda>p. (p, v p)) (drop (i + BATCH_SIZE) all_files))
            (write_results (detect_person_in_batch m batch) s)"
      using "1.IH" [OF True batch_def refl "1.prems"] .
    have "drop i all_files = batch @ drop (i + BATCH_SIZE) all_files"
      using append_take_drop_id [of BATCH_SIZE "drop i all_files"]
      by (simp add: batch_def add.commute)
    then have ap: "write_results (map (\<lambda>p. (p, v p)) (drop (i + BATCH_SIZE) all_files))
            (write_results (map (\<lambda>p. (p, v p)) batch) s)
        = write_results (map (\<lambda>p. (p, v p)) (drop i all_files)) s"
      by (simp add: write_results_append)
    from step ih have "process_batches m all_files i s
        = write_results (map (\<lambda>p. (p, v p)) (drop (i + BATCH_SIZE) all_files))
            (write_results (detect_person_in_batch m batch) s)"
      by (rule trans)
    also have "\<dots> = write_results (map (\<lambda>p. (p, v p)) (drop (i + BATCH_SIZE) all_files))
            (write_results (map (\<lambda>p. (p, v p)) batch) s)"
      by (simp only: det)
    also note ap
    finally show ?thesis .
  qed
qed


lemma distinct_sources:
  assumes "distinct (case images_src s of None \<Rightarrow> [] | Some listing \<Rightarrow> listing)"
  shows "distinct (list_source_images (makedirs s))"
proof -
  have "inj_on (path_join IMAGE_SRC_DIR) A" for A
    by (simp add: inj_on_def path_join_def)
  then show ?thesis
    using assms by (simp add: list_source_images_def makedirs_def distinct_map)
qed

lemma capture_as_one:
  assumes "\<And>ps. distinct ps \<Longrightarrow> detect_person_in_batch m ps = map (\<lambda>p. (p, v p)) ps"
    and "distinct (case images_src s of None \<Rightarrow> [] | Some listing \<Rightarrow> listing)"
  shows "capture_and_update_images m s = capture_single_batch m s"
proof -
  define all_files where "all_files = list_source_images (makedirs s)"
  have d: "distinct all_files" unfolding all_files_def using assms(2) by (rule distinct_sources)
  have "process_batches m all_files 0 (makedirs s)
      = write_results (map (\<lambda>p. (p, v p)) (drop 0 all_files)) (makedirs s)"
    using assms(1) d by (rule batches_as_one)
  also have "\<dots> = write_results (detect_person_in_batch m all_files) (makedirs s)"
    using assms(1) [OF d] by simp
  finally show ?thesis
    by (simp add: capture_and_update_images_def capture_single_batch_def Let_def
          all_files_def)
qed

text \<open>
  Claim C8. Let the detector give every image a result of its own (a number of boxes
  that depends on the path only), or let the model be missing and the draw depend on the
  path only. If the listing of the source directory has no repeated entry, then
  \<open>capture_and_update_images\<close>, which submits batches of \<open>BATCH_SIZE\<close>, leaves the same
  store as the run that submits all images as one batch; in particular
  \<open>get_camera_status\<close> reports the same status for every camera.
\<close>

theorem batch_boundaries_no_effect:
  assumes "distinct (case images_src s of None \<Rightarrow> [] | Some listing \<Rightarrow> listing)"
  shows "capture_and_update_images (Model (\<lambda>paths. Some (map boxes paths))) s
           = capture_single_batch (Model (\<lambda>paths. Some (map boxes paths))) s
         \<and> get_camera_status
             (capture_and_update_images (Model (\<lambda>paths. Some (map boxes paths))) s)
           = get_camera_status
               (capture_single_batch (Model (\<lambda>paths. Some (map boxes paths))) s)
         \<and> capture_and_update_images (NoModel coin) s = capture_single_batch (NoModel coin) s"
proof -
  have a: "capture_and_update_images (Model (\<lambda>paths. Some (map boxes paths))) s
           = capture_single_batch (Model (\<lambda>paths. Some (map boxes paths))) s"
    using detect_per_path assms by (rule capture_as_one)
  have b: "capture_and_update_images (NoModel coin) s = capture_single_batch (NoModel coin) s"
    using detect_coin assms by (rule capture_as_one)
  from a b show ?thesis by simp
qed

lemma many_camera_entry:
  "(endswith (lower (''CAM_'' @ replicate n (CHR ''x'') @ ''.jpg'')) ''.jpg''
      \<or> endswith (lower (''CAM_'' @ replicate n (CHR ''x'') @ ''.jpg'')) ''.jpeg''
      \<or> endswith (lower (''CAM_'' @ replicate n (CHR ''x'') @ ''.jpg'')) ''.png'')
   \<and> startswith (fst (splitext (''CAM_'' @ replicate n (CHR ''x'') @ ''.jpg''))) ''CAM_''"
proof -
  have "splitext ([] @ (''CAM_'' @ replicate n (CHR ''x'')) @ CHR ''.'' # ''jpg'')
      = ([] @ (''CAM_'' @ replicate n (CHR ''x'')), CHR ''.'' # ''jpg'')"
    by (rule splitext_suffix) auto
  then have sp: "fst (splitext (''CAM_'' @ replicate n (CHR ''x'') @ ''.jpg''))
      = ''CAM_'' @ replicate n (CHR ''x'')"
    by simp
  have lo: "lower (''CAM_'' @ replicate n (CHR ''x'') @ ''.jpg'')
      = (''cam_'' @ replicate n (CHR ''x'')) @ ''.jpg''"
    by (simp add: lower_def lower_char_def)
  have "endswith ((''cam_'' @ replicate n (CHR ''x'')) @ ''.jpg'') ''.jpg''"
    unfolding endswith_def by simp
  then show ?thesis unfolding sp lo by (simp add: startswith_def)
qed

theorem batch_boundaries_no_effect_witness:
  "BATCH_SIZE < length (list_source_images (makedirs many_camera_store))
   \<and> capture_and_update_images (Model (\<lambda>paths. Some (map (\<lambda>p. length p mod 2) paths)))
        many_camera_store
     = capture_single_batch (Model (\<lambda>paths. Some (map (\<lambda>p. length p mod 2) paths)))
        many_camera_store
   \<and> get_camera_status
        (capture_and_update_images (Model (\<lambda>paths. Some (map (\<lambda>p. length p mod 2) paths)))
           many_camera_store)
     = get_camera_status
        (capture_single_batch (Model (\<lambda>paths. Some (map (\<lambda>p. length p mod 2) paths)))
           many_camera_store)"
proof -
  define name where "name = (\<lambda>n. ''CAM_'' @ replicate n (CHR ''x'') @ ''.jpg'')"
  have inj: "inj_on name A" for A
  proof (rule inj_onI)
    fix n m :: nat
    assume "name n = name m"
    then have "length (name n) = length (name m)" by (rule arg_cong)
    then show "n = m" by (simp add: name_def)
  qed
  have src: "images_src many_camera_store = Some (map name [0..<30])"
    by (simp add: many_camera_store_def name_def)
  have h: "distinct (case images_src many_camera_store of
                       None \<Rightarrow> [] | Some listing \<Rightarrow> listing)"
    unfolding src using inj by (simp add: distinct_map)
  have keep: "filter (\<lambda>entry.
                       (endswith (lower entry) ''.jpg'' \<or> endswith (lower entry) ''.jpeg''
                          \<or> endswith (lower entry) ''.png'')
                       \<and> startswith (fst (splitext entry)) ''CAM_'') (map name [0..<30])
      = map name [0..<30]"
    unfolding filter_id_conv using many_camera_entry by (auto simp: name_def)
  have "list_source_images (makedirs many_camera_store)
      = map (path_join IMAGE_SRC_DIR) (map name [0..<30])"
    unfolding list_source_images_def makedirs_def using src keep by simp
  then have len: "BATCH_SIZE < length (list_source_images (makedirs many_camera_store))"
    by (simp add: BATCH_SIZE_def)
  from len batch_boundaries_no_effect [OF h, of "\<lambda>p. length p mod 2"]
  show ?thesis by simp
qed

end
